theory Spec2Isabelle
  imports Complex_Main
begin

section \<open>Runge-Kutta integrators of the notebook 06b, in exact arithmetic\<close>

text \<open>
  The notebook defines two Python functions, \<open>explicitRK\<close> (fixed step, general explicit
  Butcher tableau) and \<open>HeunWithEuler\<close> (adaptive step, embedded Heun/Euler pair).
  Both work on a scalar or on a numpy vector; here the state is an element of a real normed
  vector space, times and step sizes are real numbers, and every arithmetic operation is
  exact. The right-hand side \<open>f\<close> is a total function of time and state.
\<close>

subsection \<open>Errors and indexing\<close>

text \<open>
  \<open>IndexError\<close>: reading \<open>c[i]\<close> or \<open>a[i,j]\<close> outside the array raises in Python.
  \<open>NonFinite\<close>: \<open>tol/epsilon\<close> with \<open>epsilon = 0\<close> is a numpy float division by zero,
  which yields an infinity and lets the run go on in IEEE arithmetic; exact arithmetic
  cannot follow it, so the model stops with this outcome.
\<close>

datatype error = IndexError | NonFinite

definition index1 :: "real list \<Rightarrow> nat \<Rightarrow> error + real" where
  "index1 v i = (if i < length v then Inr (v ! i) else Inl IndexError)"

definition index2 :: "real list list \<Rightarrow> nat \<Rightarrow> nat \<Rightarrow> error + real" where
  "index2 a i j =
     (if i < length a \<and> j < length (a ! i) then Inr (a ! i ! j) else Inl IndexError)"

subsection \<open>explicitRK\<close>

text \<open>
  The inner loop \<open>for j in range(i): dY_i += h*a[i,j]*ks[j]\<close>, over the list of the
  indices still to visit. \<open>ks[j]\<close> is in range because \<open>ks\<close> has \<open>s\<close> entries.
\<close>

fun stage_increment ::
  "real \<Rightarrow> real list list \<Rightarrow> nat \<Rightarrow> 'a::real_normed_vector list \<Rightarrow> nat list \<Rightarrow> 'a \<Rightarrow> error + 'a"
where
  "stage_increment h a i ks [] dY = Inr dY"
| "stage_increment h a i ks (j # js) dY =
     (case index2 a i j of
        Inl e \<Rightarrow> Inl e
      | Inr aij \<Rightarrow> stage_increment h a i ks js (dY + (h * aij) *\<^sub>R (ks ! j)))"

text \<open>
  The stage loop \<open>for i in range(s)\<close>: \<open>t_i = t + c[i]*h\<close>, the increment \<open>dY_i\<close>
  from zero, and \<open>ks[i] = f(t_i, y + dY_i)\<close> stored in place.
\<close>

fun stage_derivatives ::
  "real list list \<Rightarrow> real list \<Rightarrow> (real \<Rightarrow> 'a::real_normed_vector \<Rightarrow> 'a) \<Rightarrow> real \<Rightarrow> real \<Rightarrow> 'a
     \<Rightarrow> nat list \<Rightarrow> 'a list \<Rightarrow> error + 'a list"
where
  "stage_derivatives a c f h t y [] ks = Inr ks"
| "stage_derivatives a c f h t y (i # is) ks =
     (case index1 c i of
        Inl e \<Rightarrow> Inl e
      | Inr ci \<Rightarrow>
          (case stage_increment h a i ks [0..<i] 0 of
             Inl e \<Rightarrow> Inl e
           | Inr dY_i \<Rightarrow> stage_derivatives a c f h t y is (ks[i := f (t + ci * h) (y + dY_i)])))"

text \<open>
  The loop \<open>for i in range(s): dy += h*b[i]*ks[i]\<close>; \<open>s = len(b)\<close>, so \<open>b[i]\<close> is in
  range.
\<close>

fun step_increment ::
  "real \<Rightarrow> real list \<Rightarrow> 'a::real_normed_vector list \<Rightarrow> nat list \<Rightarrow> 'a \<Rightarrow> 'a"
where
  "step_increment h b ks [] dy = dy"
| "step_increment h b ks (i # is) dy =
     step_increment h b ks is (dy + (h * (b ! i)) *\<^sub>R (ks ! i))"

text \<open>One pass through the body of the \<open>while\<close> loop, on the lists \<open>(ts, ys, ks)\<close>.\<close>

definition rk_body ::
  "real list list \<Rightarrow> real list \<Rightarrow> real list \<Rightarrow> (real \<Rightarrow> 'a::real_normed_vector \<Rightarrow> 'a) \<Rightarrow> real \<Rightarrow> nat
     \<Rightarrow> real list \<times> 'a list \<times> 'a list \<Rightarrow> error + real list \<times> 'a list \<times> 'a list"
where
  "rk_body a b c f h s st =
     (case st of (ts, ys, ks) \<Rightarrow>
        let t = last ts; y = last ys in
        (case stage_derivatives a c f h t y [0..<s] ks of
           Inl e \<Rightarrow> Inl e
         | Inr ks' \<Rightarrow>
             (let dy = step_increment h b ks' [0..<s] 0
              in Inr (ts @ [t + h], ys @ [y + dy], ks'))))"

text \<open>\<open>while(ts[-1] < T)\<close>; a run that never leaves the loop is \<open>None\<close>.\<close>

partial_function (option) rk_loop ::
  "real list list \<Rightarrow> real list \<Rightarrow> real list \<Rightarrow> real \<Rightarrow> (real \<Rightarrow> 'a::real_normed_vector \<Rightarrow> 'a) \<Rightarrow> real
     \<Rightarrow> nat \<Rightarrow> real list \<times> 'a list \<times> 'a list \<Rightarrow> (error + real list \<times> 'a list) option"
where
  "rk_loop a b c T f h s st =
     (if last (fst st) < T then
        (case rk_body a b c f h s st of
           Inl e \<Rightarrow> Some (Inl e)
         | Inr st' \<Rightarrow> rk_loop a b c T f h s st')
      else Some (Inr (fst st, fst (snd st))))"

declare rk_loop.simps [code]

definition explicitRK ::
  "real list list \<Rightarrow> real list \<Rightarrow> real list \<Rightarrow> 'a::real_normed_vector \<Rightarrow> real
     \<Rightarrow> (real \<Rightarrow> 'a \<Rightarrow> 'a) \<Rightarrow> real \<Rightarrow> (error + real list \<times> 'a list) option"
where
  "explicitRK a b c y0 T f h =
     (let s = length b;
          ks = replicate s 0
      in rk_loop a b c T f h s ([0], [y0], ks))"

text \<open>
  The shapes that the docstring of \<open>explicitRK\<close> asks of a tableau with \<open>s = len(b)\<close>
  stages: \<open>a\<close> is \<open>s\<close>-by-\<open>s\<close>, and \<open>c\<close> has \<open>s\<close> entries.
\<close>

definition tableau_ok :: "real list list \<Rightarrow> real list \<Rightarrow> real list \<Rightarrow> bool" where
  "tableau_ok a b c =
     (length a = length b \<and> list_all (\<lambda>row. length row = length b) a \<and> length c = length b)"

subsection \<open>HeunWithEuler\<close>

text \<open>
  One pass through the body of the \<open>while\<close> loop, on \<open>(ts, ys, hs, h)\<close>. In
  \<open>(tol/epsilon)**1/2\<close> the power binds tighter than the division.
\<close>

definition heun_body ::
  "real \<Rightarrow> (real \<Rightarrow> 'a::real_normed_vector \<Rightarrow> 'a) \<Rightarrow> real \<Rightarrow> real \<Rightarrow> real
     \<Rightarrow> real list \<times> 'a list \<times> real list \<times> real \<Rightarrow> error + real list \<times> 'a list \<times> real list \<times> real"
where
  "heun_body T f tol gamma alpha st =
     (case st of (ts, ys, hs, h) \<Rightarrow>
        let t = last ts; y = last ys;
            k1 = f t y;
            k2 = f (t + h) (y + h *\<^sub>R k1);
            epsilon = norm (h *\<^sub>R ((0.5 - 1) *\<^sub>R k1 + (0.5 - 0) *\<^sub>R k2))
        in if epsilon \<le> tol then
             (if t + h > T then Inr (ts, ys, hs, T - t)
              else Inr (ts @ [t + h], ys @ [y + (0.5 * h) *\<^sub>R (k1 + k2)], hs @ [h], alpha * h))
           else if epsilon = 0 then Inl NonFinite
           else Inr (ts, ys, hs, h * gamma * ((tol / epsilon) ^ 1 / 2)))"

partial_function (option) heun_loop ::
  "real \<Rightarrow> (real \<Rightarrow> 'a::real_normed_vector \<Rightarrow> 'a) \<Rightarrow> real \<Rightarrow> real \<Rightarrow> real
     \<Rightarrow> real list \<times> 'a list \<times> real list \<times> real
     \<Rightarrow> (error + real list \<times> 'a list \<times> real list) option"
where
  "heun_loop T f tol gamma alpha st =
     (if last (fst st) < T then
        (case heun_body T f tol gamma alpha st of
           Inl e \<Rightarrow> Some (Inl e)
         | Inr st' \<Rightarrow> heun_loop T f tol gamma alpha st')
      else Some (Inr (fst st, fst (snd st), fst (snd (snd st)))))"

declare heun_loop.simps [code]

definition HeunWithEuler ::
  "'a::real_normed_vector \<Rightarrow> real \<Rightarrow> (real \<Rightarrow> 'a \<Rightarrow> 'a) \<Rightarrow> real \<Rightarrow> real \<Rightarrow> real \<Rightarrow> real
     \<Rightarrow> (error + real list \<times> 'a list \<times> real list) option"
where
  "HeunWithEuler y0 T f h tol gamma alpha = heun_loop T f tol gamma alpha ([0], [y0], [h], h)"

section \<open>Properties\<close>

subsection \<open>Horizon zero\<close>

text \<open>
  Claim C9. With horizon \<open>0\<close> both functions return the single sample (time \<open>0\<close>,
  initial state), and \<open>HeunWithEuler\<close> returns the step-size list holding only the
  initial guess. The loop body, the only place where \<open>f\<close> is applied, is not entered:
  the result is the same for every right-hand side \<open>f\<close>, every tableau and every step
  size.
\<close>

theorem horizon_zero_single_sample:
  "explicitRK a b c y0 0 f h = Some (Inr ([0], [y0]))
   \<and> HeunWithEuler y0 0 f h tol gamma alpha = Some (Inr ([0], [y0], [h]))"
proof
  show "explicitRK a b c y0 0 f h = Some (Inr ([0], [y0]))"
    unfolding explicitRK_def Let_def by (subst rk_loop.simps) simp
  show "HeunWithEuler y0 0 f h tol gamma alpha = Some (Inr ([0], [y0], [h]))"
    unfolding HeunWithEuler_def by (subst heun_loop.simps) simp
qed

subsection \<open>One pass of the adaptive loop\<close>

lemma half_lt_sqrt:
  fixes r :: real
  assumes "0 < r" "r < 1"
  shows "r / 2 < sqrt r"
proof -
  have s1: "sqrt r < 1" and s0: "0 < sqrt r" using assms by simp_all
  have "sqrt r * sqrt r < 1 * sqrt r"
    using s1 s0 by (rule mult_strict_right_mono)
  moreover have "sqrt r * sqrt r = r" using assms by simp
  ultimately have "r < sqrt r" by simp
  thus ?thesis using assms by simp
qed

text \<open>
  Claim C2. When the error estimate \<open>epsilon\<close> exceeds the tolerance, the pass leaves
  the lists of times, states and step sizes as they are and sets the step size to
  \<open>h * gamma * (tol / epsilon) / 2\<close>; for a positive tolerance and \<open>h * gamma \<noteq> 0\<close>
  this differs from \<open>h * gamma * sqrt (tol / epsilon)\<close>. (\<open>epsilon \<noteq> 0\<close> holds whenever
  \<open>tol \<ge> 0\<close>; the quotient \<open>tol / epsilon\<close> has no exact value otherwise.)
\<close>

theorem rejected_step_update:
  fixes f :: "real \<Rightarrow> 'a::real_normed_vector \<Rightarrow> 'a"
  assumes k1: "k1 = f (last ts) (last ys)"
    and k2: "k2 = f (last ts + h) (last ys + h *\<^sub>R k1)"
    and eps: "epsilon = norm (h *\<^sub>R ((0.5 - 1) *\<^sub>R k1 + (0.5 - 0) *\<^sub>R k2))"
    and rej: "tol < epsilon"
    and nz: "epsilon \<noteq> 0"
  shows "\<exists>h'. heun_body T f tol gamma alpha (ts, ys, hs, h) = Inr (ts, ys, hs, h')
           \<and> h' = h * gamma * (tol / epsilon) / 2
           \<and> (0 < tol \<and> h * gamma \<noteq> 0 \<longrightarrow> h' \<noteq> h * gamma * sqrt (tol / epsilon))"
proof -
  have body: "heun_body T f tol gamma alpha (ts, ys, hs, h)
                = Inr (ts, ys, hs, h * gamma * (tol / epsilon) / 2)"
    using rej nz unfolding heun_body_def Let_def k1 k2 eps by simp
  have "h * gamma * (tol / epsilon) / 2 \<noteq> h * gamma * sqrt (tol / epsilon)"
    if "0 < tol" "h * gamma \<noteq> 0"
  proof -
    have "0 < tol / epsilon" "tol / epsilon < 1" using that rej by simp_all
    from half_lt_sqrt[OF this] have ne: "tol / epsilon / 2 \<noteq> sqrt (tol / epsilon)" by simp
    have "h * gamma * (tol / epsilon) / 2 = (h * gamma) * (tol / epsilon / 2)" by simp
    moreover have "(h * gamma) * (tol / epsilon / 2) \<noteq> (h * gamma) * sqrt (tol / epsilon)"
      using ne that(2) mult_cancel_left[of "h * gamma" "tol / epsilon / 2" "sqrt (tol / epsilon)"]
      by blast
    ultimately show ?thesis by metis
  qed
  with body show ?thesis by blast
qed

theorem rejected_step_update_witness:
  "(1/100 :: real) < 1/8 \<and>
   heun_body 1 (\<lambda>t y. t) (1/100) (9/10) (11/10) ([0], [1::real], [1/2], 1/2)
     = Inr ([0], [1], [1/2], 9/500)"
  using rejected_step_update[where f = "\<lambda>t y. t" and ts = "[0]" and ys = "[1::real]"
      and h = "1/2" and ?k1.0 = 0 and ?k2.0 = "1/2" and epsilon = "1/8" and tol = "1/100"
      and T = 1 and gamma = "9/10" and alpha = "11/10" and hs = "[1/2]"]
  by auto

text \<open>
  Claim C5. With \<open>k1 = f(t, y)\<close> and \<open>k2 = f(t + h, y + h k1)\<close> the error estimate is
  the norm of \<open>h (k2 - k1) / 2\<close>. If the estimate is at most the tolerance and
  \<open>t + h \<le> T\<close>, the pass appends the time \<open>t + h\<close>, the state
  \<open>y + 0.5 h (k1 + k2)\<close> and the step size \<open>h\<close>, and continues with \<open>alpha * h\<close>;
  in every other case nothing is appended.
\<close>

theorem heun_body_accept_exactly:
  fixes f :: "real \<Rightarrow> 'a::real_normed_vector \<Rightarrow> 'a"
  assumes k1: "k1 = f (last ts) (last ys)"
    and k2: "k2 = f (last ts + h) (last ys + h *\<^sub>R k1)"
    and eps: "epsilon = norm (h *\<^sub>R ((0.5 - 1) *\<^sub>R k1 + (0.5 - 0) *\<^sub>R k2))"
  shows "epsilon = norm ((h / 2) *\<^sub>R (k2 - k1))
     \<and> (epsilon \<le> tol \<and> last ts + h \<le> T \<longrightarrow>
          heun_body T f tol gamma alpha (ts, ys, hs, h)
            = Inr (ts @ [last ts + h], ys @ [last ys + (0.5 * h) *\<^sub>R (k1 + k2)], hs @ [h], alpha * h))
     \<and> (\<not> (epsilon \<le> tol \<and> last ts + h \<le> T) \<longrightarrow>
          (\<forall>ts' ys' hs' h'. heun_body T f tol gamma alpha (ts, ys, hs, h) = Inr (ts', ys', hs', h')
             \<longrightarrow> ts' = ts \<and> ys' = ys \<and> hs' = hs))"
proof (intro conjI impI allI)
  have "h *\<^sub>R ((0.5 - 1) *\<^sub>R k1 + (0.5 - 0) *\<^sub>R k2) = (h / 2) *\<^sub>R (k2 - k1)"
    by (simp add: scaleR_right_diff_distrib scaleR_right_distrib)
  thus "epsilon = norm ((h / 2) *\<^sub>R (k2 - k1))" unfolding eps by simp
next
  assume "epsilon \<le> tol \<and> last ts + h \<le> T"
  thus "heun_body T f tol gamma alpha (ts, ys, hs, h)
            = Inr (ts @ [last ts + h], ys @ [last ys + (0.5 * h) *\<^sub>R (k1 + k2)], hs @ [h], alpha * h)"
    unfolding heun_body_def Let_def k1 k2 eps by simp
next
  fix ts' ys' hs' h'
  assume "\<not> (epsilon \<le> tol \<and> last ts + h \<le> T)"
    and "heun_body T f tol gamma alpha (ts, ys, hs, h) = Inr (ts', ys', hs', h')"
  thus "ts' = ts" "ys' = ys" "hs' = hs"
    unfolding heun_body_def Let_def k1 k2 eps by (auto split: if_splits)
qed

theorem heun_body_accept_exactly_witness:
  "heun_body 1 (\<lambda>t y. t) 1 (9/10) (11/10) ([0], [1::real], [1/2], 1/2)
     = Inr ([0, 1/2], [1, 9/8], [1/2, 1/2], 11/20)
   \<and> (\<exists>h'. heun_body 1 (\<lambda>t y. t) (1/100) (9/10) (11/10) ([0], [1::real], [1/2], 1/2)
           = Inr ([0], [1], [1/2], h'))"
proof -
  note acc = heun_body_accept_exactly[where f = "\<lambda>t y. t" and ts = "[0]" and ys = "[1::real]"
      and h = "1/2" and ?k1.0 = 0 and ?k2.0 = "1/2" and epsilon = "1/8" and tol = 1
      and T = 1 and gamma = "9/10" and alpha = "11/10" and hs = "[1/2]"]
  note rej = heun_body_accept_exactly[where f = "\<lambda>t y. t" and ts = "[0]" and ys = "[1::real]"
      and h = "1/2" and ?k1.0 = 0 and ?k2.0 = "1/2" and epsilon = "1/8" and tol = "1/100"
      and T = 1 and gamma = "9/10" and alpha = "11/10" and hs = "[1/2]"]
  have "heun_body 1 (\<lambda>t y. t) 1 (9/10) (11/10) ([0], [1::real], [1/2], 1/2)
     = Inr ([0, 1/2], [1, 9/8], [1/2, 1/2], 11/20)"
    using acc by simp
  moreover have
    r: "heun_body 1 (\<lambda>t y. t) (1/100) (9/10) (11/10) ([0], [1::real], [1/2], 1/2)
        = Inr ([0], [1], [1/2], 9/500)"
    by (simp add: heun_body_def)
  have "\<exists>h'. heun_body 1 (\<lambda>t y. t) (1/100) (9/10) (11/10) ([0], [1::real], [1/2], 1/2)
           = Inr ([0], [1], [1/2], h')"
    using rej r by blast
  ultimately show ?thesis by blast
qed

subsection \<open>Invariants of the adaptive loop\<close>

text \<open>
  A property that holds of the initial lists and step size and that every pass of the
  body preserves holds when the loop exits; a run that stops with an error stopped in a
  pass that started from a state with the property.
\<close>

lemma heun_loop_invariant:
  assumes run: "heun_loop T f tol gamma alpha st = Some r"
    and init: "I st"
    and step: "\<And>s s'. I s \<Longrightarrow> last (fst s) < T \<Longrightarrow> heun_body T f tol gamma alpha s = Inr s' \<Longrightarrow> I s'"
  shows "case r of
           Inl e \<Rightarrow> (\<exists>s. I s \<and> last (fst s) < T \<and> heun_body T f tol gamma alpha s = Inl e)
         | Inr (ts, ys, hs) \<Rightarrow> (\<exists>h. I (ts, ys, hs, h) \<and> \<not> last ts < T)"
proof -
  let ?Q = "\<lambda>T f tol gamma alpha r. case r of
           Inl e \<Rightarrow> (\<exists>s. I s \<and> last (fst s) < T \<and> heun_body T f tol gamma alpha s = Inl e)
         | Inr (ts, ys, hs) \<Rightarrow> (\<exists>h. I (ts, ys, hs, h) \<and> \<not> last ts < T)"
  let ?S = "\<lambda>T f tol gamma alpha. \<forall>s s'. I s \<longrightarrow> last (fst s) < T \<longrightarrow>
              heun_body T f tol gamma alpha s = Inr s' \<longrightarrow> I s'"
  let ?P = "\<lambda>T f tol gamma alpha st r. I st \<longrightarrow> ?S T f tol gamma alpha \<longrightarrow> ?Q T f tol gamma alpha r"
  have "?P T f tol gamma alpha st r"
  proof (rule heun_loop.raw_induct[where P = ?P, OF _ run])
    fix loop T f tol gamma alpha st r
    assume IH: "\<And>T f tol gamma alpha st r. loop T f tol gamma alpha st = Some r \<Longrightarrow> ?P T f tol gamma alpha st r"
      and eq: "(if last (fst st) < T
                then case heun_body T f tol gamma alpha st of
                       Inl e \<Rightarrow> Some (Inl e)
                     | Inr st' \<Rightarrow> loop T f tol gamma alpha st'
                else Some (Inr (fst st, fst (snd st), fst (snd (snd st))))) = Some r"
    show "?P T f tol gamma alpha st r"
    proof (intro impI)
      assume inv: "I st" and S: "?S T f tol gamma alpha"
      show "?Q T f tol gamma alpha r"
      proof (cases "last (fst st) < T")
        case False
        obtain ts ys hs h where st: "st = (ts, ys, hs, h)" by (cases st) auto
        with eq False have "r = Inr (ts, ys, hs)" by simp
        thus ?thesis using inv False st by auto
      next
        case True
        show ?thesis
        proof (cases "heun_body T f tol gamma alpha st")
          case (Inl e)
          with True eq have "r = Inl e" by simp
          moreover have "\<exists>s. I s \<and> last (fst s) < T \<and> heun_body T f tol gamma alpha s = Inl e"
            using True Inl inv by blast
          ultimately show ?thesis by simp
        next
          case (Inr st')
          with True eq have "loop T f tol gamma alpha st' = Some r" by simp
          moreover have "I st'" using S inv True Inr by blast
          ultimately show ?thesis using IH S by blast
        qed
      qed
    qed
  qed
  thus ?thesis using init step by blast
qed


lemma heun_loop_invariant_Inr:
  assumes "heun_loop T f tol gamma alpha st = Some (Inr (ts, ys, hs))"
    and "I st"
    and "\<And>s s'. I s \<Longrightarrow> last (fst s) < T \<Longrightarrow> heun_body T f tol gamma alpha s = Inr s' \<Longrightarrow> I s'"
  shows "\<exists>h. I (ts, ys, hs, h) \<and> \<not> last ts < T"
  using heun_loop_invariant[where I = I, OF assms] by simp

lemma heun_loop_invariant_Inl:
  assumes "heun_loop T f tol gamma alpha st = Some (Inl e)"
    and "I st"
    and "\<And>s s'. I s \<Longrightarrow> last (fst s) < T \<Longrightarrow> heun_body T f tol gamma alpha s = Inr s' \<Longrightarrow> I s'"
  shows "\<exists>s. I s \<and> last (fst s) < T \<and> heun_body T f tol gamma alpha s = Inl e"
  using heun_loop_invariant[where I = I, OF assms] by simp

lemma heun_body_no_error:
  assumes "0 \<le> tol"
  shows "heun_body T f tol gamma alpha s \<noteq> Inl e"
proof (cases s)
  case (fields ts ys hs h)
  show ?thesis
    using assms unfolding fields heun_body_def Let_def
    by (auto split: if_splits)
qed

lemma sorted_wrt_less_le_last:
  fixes ts :: "real list"
  assumes "sorted_wrt (<) ts" "x \<in> set ts"
  shows "x \<le> last ts"
  using assms
proof (induction ts)
  case Nil
  thus ?case by simp
next
  case (Cons a ts)
  show ?case
  proof (cases "ts = []")
    case True
    with Cons.prems show ?thesis by simp
  next
    case False
    hence l: "last ts \<in> set ts" "last (a # ts) = last ts" by simp_all
    from Cons.prems have so: "sorted_wrt (<) ts" and al: "\<forall>y\<in>set ts. a < y" by simp_all
    from Cons.prems(2) have "x = a \<or> x \<in> set ts" by simp
    thus ?thesis
    proof
      assume "x = a"
      with al l show ?thesis by fastforce
    next
      assume "x \<in> set ts"
      with Cons.IH[OF so] l show ?thesis by simp
    qed
  qed
qed

lemma heun_body_unfold:
  fixes f :: "real \<Rightarrow> 'a::real_normed_vector \<Rightarrow> 'a"
  assumes "k1 = f (last ts) (last ys)"
    and "k2 = f (last ts + h) (last ys + h *\<^sub>R k1)"
    and "epsilon = norm (h *\<^sub>R ((0.5 - 1) *\<^sub>R k1 + (0.5 - 0) *\<^sub>R k2))"
  shows "heun_body T f tol gamma alpha (ts, ys, hs, h) =
     (if epsilon \<le> tol then
        (if last ts + h > T then Inr (ts, ys, hs, T - last ts)
         else Inr (ts @ [last ts + h], ys @ [last ys + (0.5 * h) *\<^sub>R (k1 + k2)], hs @ [h], alpha * h))
      else if epsilon = 0 then Inl NonFinite
      else Inr (ts, ys, hs, h * gamma * (tol / epsilon / 2)))"
  unfolding heun_body_def Let_def assms by simp

lemma heun_body_Inr_cases:
  fixes f :: "real \<Rightarrow> 'a::real_normed_vector \<Rightarrow> 'a"
  assumes "heun_body T f tol gamma alpha (ts, ys, hs, h) = Inr s'"
  obtains (clip) "T < last ts + h" "s' = (ts, ys, hs, T - last ts)"
    | (accept) y' where "last ts + h \<le> T" "s' = (ts @ [last ts + h], ys @ [y'], hs @ [h], alpha * h)"
    | (reject) epsilon where "tol < epsilon" "0 \<le> epsilon" "epsilon \<noteq> 0"
        "s' = (ts, ys, hs, h * gamma * (tol / epsilon / 2))"
proof -
  define k1 where "k1 = f (last ts) (last ys)"
  define k2 where "k2 = f (last ts + h) (last ys + h *\<^sub>R k1)"
  define epsilon where "epsilon = norm (h *\<^sub>R ((0.5 - 1) *\<^sub>R k1 + (0.5 - 0) *\<^sub>R k2)) "
  have nonneg: "0 \<le> epsilon" unfolding epsilon_def by (rule norm_ge_zero)
  note u = heun_body_unfold[OF k1_def k2_def epsilon_def, of T tol gamma alpha hs]
  show thesis
  proof (cases "epsilon \<le> tol")
    case True
    show thesis
    proof (cases "T < last ts + h")
      case True
      with \<open>epsilon \<le> tol\<close> assms u have "s' = (ts, ys, hs, T - last ts)" by simp
      with True show thesis by (rule clip)
    next
      case False
      with \<open>epsilon \<le> tol\<close> assms u
      have "s' = (ts @ [last ts + h], ys @ [last ys + (0.5 * h) *\<^sub>R (k1 + k2)], hs @ [h], alpha * h)"
        by simp
      moreover from False have "last ts + h \<le> T" by simp
      ultimately show thesis using accept by blast
    qed
  next
    case False
    with assms u have nz: "epsilon \<noteq> 0"
      and "s' = (ts, ys, hs, h * gamma * (tol / epsilon / 2))"
      by (auto split: if_splits)
    with False nonneg show thesis using reject[of epsilon] by simp
  qed
qed

text \<open>
  A run that exercises the three branches: one rejection, one accepted step, one clipping
  of the step to the horizon, and the final accepted step.
\<close>

lemma heun_example_run:
  "HeunWithEuler (0::real) (1/4) (\<lambda>t y. t) (1/2) (1/10) (9/10) 2
     = Some (Inr ([0, 9/50, 1/4], [0, 81/5000, 1/32], [1/2, 9/50, 7/100]))"
  unfolding HeunWithEuler_def
  by (simp add: heun_loop.simps heun_body_def Let_def)

text \<open>
  Claim C1. Every terminating call of \<open>HeunWithEuler\<close> with positive horizon, initial
  step size, tolerance, \<open>gamma\<close> and \<open>alpha\<close> returns (with no error) a list of
  times that is strictly increasing and whose last entry is exactly the horizon \<open>T\<close>.
\<close>

theorem heun_times_increasing_to_horizon:
  fixes f :: "real \<Rightarrow> 'a::real_normed_vector \<Rightarrow> 'a"
  assumes run: "HeunWithEuler y0 T f h tol gamma alpha = Some r"
    and T: "0 < T" and h: "0 < h" and tol: "0 < tol" and gamma: "0 < gamma" and alpha: "0 < alpha"
  shows "\<exists>ts ys hs. r = Inr (ts, ys, hs) \<and> ts \<noteq> [] \<and> sorted_wrt (<) ts \<and> last ts = T"
proof -
  define I :: "real list \<times> 'a list \<times> real list \<times> real \<Rightarrow> bool" where
    "I = (\<lambda>(ts, ys, hs, h). ts \<noteq> [] \<and> sorted_wrt (<) ts \<and> last ts \<le> T \<and> 0 < h)"
  have init: "I ([0], [y0], [h], h)" using T h by (simp add: I_def)
  have step: "I s'" if I: "I s" and lt: "last (fst s) < T"
    and body: "heun_body T f tol gamma alpha s = Inr s'" for s s'
  proof -
    obtain ts ys hs h where s: "s = (ts, ys, hs, h)" by (cases s) auto
    from I s have ne: "ts \<noteq> []" and so: "sorted_wrt (<) ts" and le: "last ts \<le> T" and hp: "0 < h"
      by (simp_all add: I_def)
    from lt s have lt': "last ts < T" by simp
    from body[unfolded s] show ?thesis
    proof (cases rule: heun_body_Inr_cases)
      case clip
      thus ?thesis using ne so le lt' by (simp add: I_def)
    next
      case (accept y')
      have "\<forall>x\<in>set ts. x < last ts + h"
        using sorted_wrt_less_le_last[OF so] hp by fastforce
      hence "sorted_wrt (<) (ts @ [last ts + h])"
        using so by (simp add: sorted_wrt_append)
      thus ?thesis using accept hp alpha by (simp add: I_def)
    next
      case (reject epsilon)
      hence "0 < h * gamma * (tol / epsilon / 2)"
        using hp gamma tol by simp
      thus ?thesis using reject ne so le by (simp add: I_def)
    qed
  qed
  note loop = run[unfolded HeunWithEuler_def]
  show ?thesis
  proof (cases r)
    case (Inl e)
    have "\<exists>s. I s \<and> last (fst s) < T \<and> heun_body T f tol gamma alpha s = Inl e"
      by (rule heun_loop_invariant_Inl[where I = I, OF loop[unfolded Inl] init]) (rule step)
    then obtain s where "heun_body T f tol gamma alpha s = Inl e" by blast
    with heun_body_no_error[of tol T f gamma alpha s e] tol show ?thesis by simp
  next
    case (Inr res)
    obtain ts ys hs where res: "res = (ts, ys, hs)" by (cases res) auto
    have "\<exists>h'. I (ts, ys, hs, h') \<and> \<not> last ts < T"
      by (rule heun_loop_invariant_Inr[where I = I, OF loop[unfolded Inr res] init]) (rule step)
    then obtain h' where "I (ts, ys, hs, h')" "\<not> last ts < T" by blast
    hence "ts \<noteq> [] \<and> sorted_wrt (<) ts \<and> last ts = T" by (simp add: I_def)
    with Inr res show ?thesis by blast
  qed
qed

theorem heun_times_increasing_to_horizon_witness:
  "(0::real) < 1/4 \<and> (0::real) < 1/2 \<and> (0::real) < 1/10 \<and> (0::real) < 9/10 \<and> (0::real) < 2
   \<and> sorted_wrt (<) [0, 9/50, 1/4 :: real] \<and> last [0, 9/50, 1/4 :: real] = 1/4"
  using heun_times_increasing_to_horizon[OF heun_example_run] by simp

text \<open>
  Claim C7. Every terminating call of \<open>HeunWithEuler\<close> with positive initial step size,
  tolerance, \<open>gamma\<close> and \<open>alpha\<close> returns a list of step sizes as long as the lists
  of times and of states, whose first entry is the caller's initial guess and whose
  entries are all positive.
\<close>

theorem heun_step_sizes_positive:
  fixes f :: "real \<Rightarrow> 'a::real_normed_vector \<Rightarrow> 'a"
  assumes run: "HeunWithEuler y0 T f h tol gamma alpha = Some r"
    and h: "0 < h" and tol: "0 < tol" and gamma: "0 < gamma" and alpha: "0 < alpha"
  shows "\<exists>ts ys hs. r = Inr (ts, ys, hs) \<and> length hs = length ts \<and> length hs = length ys
           \<and> hs \<noteq> [] \<and> hs ! 0 = h \<and> list_all (\<lambda>x. 0 < x) hs"
proof -
  define I :: "real list \<times> 'a list \<times> real list \<times> real \<Rightarrow> bool" where
    "I = (\<lambda>(ts, ys, hs, h'). length hs = length ts \<and> length hs = length ys
            \<and> hs \<noteq> [] \<and> hs ! 0 = h \<and> list_all (\<lambda>x. 0 < x) hs \<and> 0 < h')"
  have init: "I ([0], [y0], [h], h)" using h by (simp add: I_def)
  have step: "I s'" if I: "I s" and lt: "last (fst s) < T"
    and body: "heun_body T f tol gamma alpha s = Inr s'" for s s'
  proof -
    obtain ts ys hs h' where s: "s = (ts, ys, hs, h')" by (cases s) auto
    from I s have inv: "length hs = length ts" "length hs = length ys" "hs \<noteq> []" "hs ! 0 = h"
        "list_all (\<lambda>x. 0 < x) hs" and hp: "0 < h'"
      by (simp_all add: I_def)
    from lt s have lt': "last ts < T" by simp
    from body[unfolded s] show ?thesis
    proof (cases rule: heun_body_Inr_cases)
      case clip
      thus ?thesis using inv lt' by (simp add: I_def)
    next
      case (accept y')
      have "ts \<noteq> []" using inv(1,3) by auto
      thus ?thesis using accept inv hp alpha by (simp add: I_def nth_append)
    next
      case (reject epsilon)
      hence "0 < h' * gamma * (tol / epsilon / 2)"
        using hp gamma tol by simp
      thus ?thesis using reject inv by (simp add: I_def)
    qed
  qed
  note loop = run[unfolded HeunWithEuler_def]
  show ?thesis
  proof (cases r)
    case (Inl e)
    have "\<exists>s. I s \<and> last (fst s) < T \<and> heun_body T f tol gamma alpha s = Inl e"
      by (rule heun_loop_invariant_Inl[where I = I, OF loop[unfolded Inl] init]) (rule step)
    then obtain s where "heun_body T f tol gamma alpha s = Inl e" by blast
    with heun_body_no_error[of tol T f gamma alpha s e] tol show ?thesis by simp
  next
    case (Inr res)
    obtain ts ys hs where res: "res = (ts, ys, hs)" by (cases res) auto
    have "\<exists>h'. I (ts, ys, hs, h') \<and> \<not> last ts < T"
      by (rule heun_loop_invariant_Inr[where I = I, OF loop[unfolded Inr res] init]) (rule step)
    then obtain h' where "I (ts, ys, hs, h')" by blast
    hence "length hs = length ts \<and> length hs = length ys
           \<and> hs \<noteq> [] \<and> hs ! 0 = h \<and> list_all (\<lambda>x. 0 < x) hs" by (simp add: I_def)
    with Inr res show ?thesis by blast
  qed
qed

theorem heun_step_sizes_positive_witness:
  "(0::real) < 1/2 \<and> (0::real) < 1/10 \<and> (0::real) < 9/10 \<and> (0::real) < 2
   \<and> length [1/2, 9/50, 7/100 :: real] = length [0, 9/50, 1/4 :: real]
   \<and> [1/2, 9/50, 7/100 :: real] ! 0 = 1/2
   \<and> list_all (\<lambda>x. 0 < x) [1/2, 9/50, 7/100 :: real]"
  using heun_step_sizes_positive[OF heun_example_run] by simp



subsection \<open>A run that never returns\<close>

text \<open>
  Claim C8. \<open>HeunWithEuler\<close> has no bound on the number of passes or rejections: when,
  at the initial point, the error estimate exceeds the (positive) tolerance for every
  positive step size, every pass rejects, the step size stays positive, nothing is ever
  appended and the call does not return. The witness is such an input: the right-hand
  side \<open>f(t, y) = 4/t\<close> for \<open>t \<noteq> 0\<close> and \<open>f(0, y) = 0\<close> has the estimate \<open>2\<close> at every
  positive step size, above the tolerance \<open>1\<close>.
\<close>

theorem heun_rejection_never_ends:
  fixes f :: "real \<Rightarrow> 'a::real_normed_vector \<Rightarrow> 'a"
  assumes T: "0 < T" and h: "0 < h" and tol: "0 < tol" and gamma: "0 < gamma"
    and bad: "\<And>h'. 0 < h' \<Longrightarrow>
      tol < norm (h' *\<^sub>R ((0.5 - 1) *\<^sub>R f 0 y0 + (0.5 - 0) *\<^sub>R f h' (y0 + h' *\<^sub>R f 0 y0)))"
  shows "HeunWithEuler y0 T f h tol gamma alpha = None"
proof (rule ccontr)
  assume "HeunWithEuler y0 T f h tol gamma alpha \<noteq> None"
  then obtain r where loop: "heun_loop T f tol gamma alpha ([0], [y0], [h], h) = Some r"
    unfolding HeunWithEuler_def by blast
  define I :: "real list \<times> 'a list \<times> real list \<times> real \<Rightarrow> bool" where
    "I = (\<lambda>(ts, ys, hs, h'). ts = [0] \<and> ys = [y0] \<and> 0 < h')"
  have init: "I ([0], [y0], [h], h)" using h by (simp add: I_def)
  have step: "I s'" if I: "I s" and lt: "last (fst s) < T"
    and body: "heun_body T f tol gamma alpha s = Inr s'" for s s'
  proof -
    obtain ts ys hs h' where s: "s = (ts, ys, hs, h')" by (cases s) auto
    from I s have ts: "ts = [0]" and ys: "ys = [y0]" and hp: "0 < h'"
      by (simp_all add: I_def)
    define k1 where "k1 = f (last ts) (last ys)"
    define k2 where "k2 = f (last ts + h') (last ys + h' *\<^sub>R k1)"
    define epsilon where "epsilon = norm (h' *\<^sub>R ((0.5 - 1) *\<^sub>R k1 + (0.5 - 0) *\<^sub>R k2))"
    have "tol < epsilon"
      using bad[OF hp] unfolding epsilon_def k2_def k1_def ts ys by simp
    hence rej: "\<not> epsilon \<le> tol" "epsilon \<noteq> 0" "0 < epsilon" using tol by simp_all
    have "s' = (ts, ys, hs, h' * gamma * (tol / epsilon / 2))"
      using body rej(1,2)
      unfolding s heun_body_unfold[OF k1_def k2_def epsilon_def, of T tol gamma alpha hs]
      by simp
    moreover have "0 < h' * gamma * (tol / epsilon / 2)"
      using hp gamma tol rej(3) by simp
    ultimately show ?thesis using ts ys by (simp add: I_def)
  qed
  show False
  proof (cases r)
    case (Inl e)
    have "\<exists>s. I s \<and> last (fst s) < T \<and> heun_body T f tol gamma alpha s = Inl e"
      by (rule heun_loop_invariant_Inl[where I = I, OF loop[unfolded Inl] init]) (rule step)
    then obtain s where "heun_body T f tol gamma alpha s = Inl e" by blast
    with heun_body_no_error[of tol T f gamma alpha s e] tol show False by simp
  next
    case (Inr res)
    obtain ts ys hs where res: "res = (ts, ys, hs)" by (cases res) auto
    have "\<exists>h'. I (ts, ys, hs, h') \<and> \<not> last ts < T"
      by (rule heun_loop_invariant_Inr[where I = I, OF loop[unfolded Inr res] init]) (rule step)
    thus False using T by (auto simp add: I_def)
  qed
qed

theorem heun_rejection_never_ends_witness:
  "HeunWithEuler (0::real) 1 (\<lambda>t y. if t = 0 then 0 else 4 / t) (1/40) 1 (9/10) (11/10) = None"
  by (rule heun_rejection_never_ends) simp_all

subsection \<open>The coefficients that explicitRK reads\<close>

lemma stage_increment_cong:
  assumes "\<And>j. j \<in> set js \<Longrightarrow> index2 a i j = index2 a' i j"
  shows "stage_increment h a i ks js dY = stage_increment h a' i ks js dY"
  using assms by (induction js arbitrary: dY) (simp_all split: sum.splits)

lemma stage_derivatives_cong:
  assumes "\<And>i j. i \<in> set is \<Longrightarrow> j < i \<Longrightarrow> index2 a i j = index2 a' i j"
  shows "stage_derivatives a c f h t y is ks = stage_derivatives a' c f h t y is ks"
  using assms
proof (induction "is" arbitrary: ks)
  case Nil
  show ?case by simp
next
  case (Cons i "is")
  have "stage_increment h a i ks [0..<i] 0 = stage_increment h a' i ks [0..<i] 0"
    by (rule stage_increment_cong) (simp add: Cons.prems)
  moreover have "stage_derivatives a c f h t y is ks' = stage_derivatives a' c f h t y is ks'" for ks'
    by (rule Cons.IH) (simp add: Cons.prems)
  ultimately show ?case by (simp split: sum.splits)
qed

lemma rk_body_cong:
  assumes "\<And>i j. i < s \<Longrightarrow> j < i \<Longrightarrow> index2 a i j = index2 a' i j"
  shows "rk_body a b c f h s st = rk_body a' b c f h s st"
proof -
  have "stage_derivatives a c f h t y [0..<s] ks = stage_derivatives a' c f h t y [0..<s] ks"
    for t y ks
    by (rule stage_derivatives_cong) (simp add: assms)
  thus ?thesis unfolding rk_body_def by simp
qed

lemma rk_loop_cong_Some:
  fixes f :: "real \<Rightarrow> 'a::real_normed_vector \<Rightarrow> 'a"
  assumes run: "rk_loop a b c T f h s st = Some r"
    and agree: "\<And>i j. i < s \<Longrightarrow> j < i \<Longrightarrow> index2 a i j = index2 a' i j"
  shows "rk_loop a' b c T f h s st = Some r"
proof -
  let ?A = "\<lambda>a s. \<forall>i j. i < s \<longrightarrow> j < i \<longrightarrow> index2 a i j = index2 a' i j"
  let ?P = "\<lambda>a b c T f h s st r. ?A a s \<longrightarrow> rk_loop a' b c T f h s st = Some r"
  have "?P a b c T f h s st r"
  proof (rule rk_loop.raw_induct[where P = ?P, OF _ run])
    fix loop a b c T and f :: "real \<Rightarrow> 'a \<Rightarrow> 'a" and h s st r
    assume IH: "\<And>a b c T (f :: real \<Rightarrow> 'a \<Rightarrow> 'a) h s st r.
                  loop a b c T f h s st = Some r \<Longrightarrow> ?P a b c T f h s st r"
      and eq: "(if last (fst st) < T
                then case rk_body a b c f h s st of
                       Inl e \<Rightarrow> Some (Inl e)
                     | Inr st' \<Rightarrow> loop a b c T f h s st'
                else Some (Inr (fst st, fst (snd st)))) = Some r"
    show "?P a b c T f h s st r"
    proof
      assume A: "?A a s"
      hence body: "rk_body a b c f h s st = rk_body a' b c f h s st"
        by (intro rk_body_cong) blast
      show "rk_loop a' b c T f h s st = Some r"
      proof (cases "last (fst st) < T")
        case False
        with eq show ?thesis by (subst rk_loop.simps) simp
      next
        case True
        show ?thesis
        proof (cases "rk_body a b c f h s st")
          case (Inl e)
          with body have b': "rk_body a' b c f h s st = Inl e" by simp
          from True eq Inl have "r = Inl e" by simp
          with True b' show ?thesis by (subst rk_loop.simps) simp
        next
          case (Inr st')
          with True eq have "loop a b c T f h s st' = Some r" by simp
          with IH A have "rk_loop a' b c T f h s st' = Some r" by blast
          moreover from Inr body have "rk_body a' b c f h s st = Inr st'" by simp
          ultimately show ?thesis using True by (subst rk_loop.simps) simp
        qed
      qed
    qed
  qed
  with agree show ?thesis by blast
qed

text \<open>
  Claim C6. \<open>explicitRK\<close> reads \<open>a[i,j]\<close> only for \<open>j < i < s\<close>: two coefficient
  matrices whose lookups agree there (same value, or both out of range) give the same
  result, with the same times and states, for all other inputs equal. In the witness the
  matrices differ on and above the diagonal.
\<close>

theorem explicitRK_reads_lower_triangle_only:
  assumes "\<And>i j. i < length b \<Longrightarrow> j < i \<Longrightarrow> index2 a i j = index2 a' i j"
  shows "explicitRK a b c y0 T f h = explicitRK a' b c y0 T f h"
proof (cases "explicitRK a b c y0 T f h")
  case (Some r)
  hence "rk_loop a b c T f h (length b) ([0], [y0], replicate (length b) 0) = Some r"
    by (simp add: explicitRK_def Let_def)
  from rk_loop_cong_Some[OF this assms]
  show ?thesis using Some by (simp add: explicitRK_def Let_def)
next
  case None
  show ?thesis
  proof (cases "explicitRK a' b c y0 T f h")
    case None
    with \<open>explicitRK a b c y0 T f h = None\<close> show ?thesis by simp
  next
    case (Some r)
    hence "rk_loop a' b c T f h (length b) ([0], [y0], replicate (length b) 0) = Some r"
      by (simp add: explicitRK_def Let_def)
    from rk_loop_cong_Some[OF this assms[symmetric]]
    show ?thesis using Some by (simp add: explicitRK_def Let_def)
  qed
qed

theorem explicitRK_reads_lower_triangle_only_witness:
  "explicitRK [[0, 0], [1, 0]] [1/2, 1/2] [0, 1] (0::real) 1 (\<lambda>t y. 1 - y) (1/2)
     = explicitRK [[7, 8], [1, 9]] [1/2, 1/2] [0, 1] 0 1 (\<lambda>t y. 1 - y) (1/2)"
  by (rule explicitRK_reads_lower_triangle_only) (simp add: index2_def less_Suc_eq numeral_2_eq_2)

subsection \<open>The fixed-step loop returns, and its times\<close>

text \<open>
  With a tableau of the documented shape no lookup fails, so every pass of the body
  appends one time and one state. The number of passes is \<open>nat \<lceil>T / h\<rceil>\<close>.
\<close>

lemma tableau_ok_index1:
  assumes "tableau_ok a b c" "i < length b"
  shows "index1 c i = Inr (c ! i)"
  using assms by (simp add: tableau_ok_def index1_def)

lemma tableau_ok_index2:
  assumes "tableau_ok a b c" "i < length b" "j < length b"
  shows "index2 a i j = Inr (a ! i ! j)"
  using assms by (simp add: tableau_ok_def index2_def list_all_length)

lemma stage_increment_ok:
  assumes "tableau_ok a b c" "i < length b" "\<And>j. j \<in> set js \<Longrightarrow> j < length b"
  shows "\<exists>dY'. stage_increment h a i ks js dY = Inr dY'"
  using assms(3)
proof (induction js arbitrary: dY)
  case Nil
  show ?case by simp
next
  case (Cons j js)
  have "index2 a i j = Inr (a ! i ! j)"
    by (rule tableau_ok_index2[OF assms(1,2)]) (simp add: Cons.prems)
  moreover have "\<exists>dY'. stage_increment h a i ks js dY'' = Inr dY'" for dY''
    by (rule Cons.IH) (simp add: Cons.prems)
  ultimately show ?case by simp
qed



lemma upt_1_Suc_Suc: "[1..<Suc (Suc n)] = 1 # map Suc [1..<Suc n]"
  by (simp add: map_Suc_upt upt_conv_Cons del: upt_Suc)



lemma steps_to_horizon:
  fixes T h :: real
  assumes "0 < h"
  defines "N \<equiv> nat \<lceil>T / h\<rceil>"
  shows "T \<le> real N * h" and "\<And>k. k < N \<Longrightarrow> real k * h < T"
    and "\<And>m. T \<le> real m * h \<Longrightarrow> N \<le> m"
proof -
  have "T / h \<le> real_of_int \<lceil>T / h\<rceil>" by (rule le_of_int_ceiling)
  also have "\<dots> \<le> real N" unfolding N_def by linarith
  finally have "T / h \<le> real N" .
  thus "T \<le> real N * h" using assms(1) by (simp add: pos_divide_le_eq)
  show "real k * h < T" if "k < N" for k
  proof -
    from that have "int k < \<lceil>T / h\<rceil>" unfolding N_def by simp
    hence "real k < T / h" by (simp add: less_ceiling_iff)
    thus ?thesis using assms(1) by (simp add: pos_less_divide_eq)
  qed
  show "N \<le> m" if "T \<le> real m * h" for m
  proof -
    from that assms(1) have "T / h \<le> real m" by (simp add: pos_divide_le_eq)
    hence "\<lceil>T / h\<rceil> \<le> int m" by (simp add: ceiling_le_iff)
    thus ?thesis unfolding N_def by linarith
  qed
qed




subsection \<open>A constant right-hand side\<close>

lemma stage_derivatives_const:
  assumes "tableau_ok a b c" "\<And>i. i \<in> set is \<Longrightarrow> i < length b"
  shows "\<exists>ks'. stage_derivatives a c (\<lambda>t y. C) h t y is ks = Inr ks' \<and> length ks' = length ks
           \<and> (\<forall>i<length ks. ks' ! i = (if i \<in> set is then C else ks ! i))"
  using assms(2)
proof (induction "is" arbitrary: ks)
  case Nil
  show ?case by simp
next
  case (Cons i "is")
  have i: "i < length b" by (simp add: Cons.prems)
  have c: "index1 c i = Inr (c ! i)" by (rule tableau_ok_index1[OF assms(1) i])
  obtain dY_i where d: "stage_increment h a i ks [0..<i] 0 = Inr dY_i"
    using stage_increment_ok[OF assms(1) i, of "[0..<i]" h ks 0] i by auto
  have "\<exists>ks'. stage_derivatives a c (\<lambda>t y. C) h t y is (ks[i := C]) = Inr ks'
          \<and> length ks' = length (ks[i := C])
          \<and> (\<forall>j<length (ks[i := C]). ks' ! j = (if j \<in> set is then C else ks[i := C] ! j))"
    by (rule Cons.IH) (simp add: Cons.prems)
  then obtain ks' where r: "stage_derivatives a c (\<lambda>t y. C) h t y is (ks[i := C]) = Inr ks'"
    and l: "length ks' = length ks"
    and v: "\<And>j. j < length ks \<Longrightarrow> ks' ! j = (if j \<in> set is then C else ks[i := C] ! j)"
    by auto
  have "ks' ! j = (if j \<in> set (i # is) then C else ks ! j)" if "j < length ks" for j
    using v[OF that] that by (auto simp add: nth_list_update)
  thus ?case using c d r l by simp
qed

lemma step_increment_const:
  assumes "\<And>i. i \<in> set is \<Longrightarrow> ks ! i = C"
  shows "step_increment h b ks is dy = dy + (h * sum_list (map ((!) b) is)) *\<^sub>R C"
  using assms
proof (induction "is" arbitrary: dy)
  case Nil
  show ?case by simp
next
  case (Cons i "is")
  have "step_increment h b ks is dy' = dy' + (h * sum_list (map ((!) b) is)) *\<^sub>R C" for dy'
    by (rule Cons.IH) (simp add: Cons.prems)
  moreover have "ks ! i = C" by (simp add: Cons.prems)
  ultimately show ?case by (simp add: algebra_simps)
qed

lemma rk_body_const:
  assumes ok: "tableau_ok a b c" and len: "length ks = length b" and sum: "sum_list b = 1"
  shows "\<exists>ks'. rk_body a b c (\<lambda>t y. C) h (length b) (ts, ys, ks)
           = Inr (ts @ [last ts + h], ys @ [last ys + h *\<^sub>R C], ks') \<and> length ks' = length b"
proof -
  obtain ks' where
    st: "stage_derivatives a c (\<lambda>t y. C) h (last ts) (last ys) [0..<length b] ks = Inr ks'"
    and l: "length ks' = length ks"
    and v: "\<forall>i<length ks. ks' ! i = (if i \<in> set [0..<length b] then C else ks ! i)"
    using stage_derivatives_const[OF ok, of "[0..<length b]" C h "last ts" "last ys" ks] by auto
  have "step_increment h b ks' [0..<length b] 0
          = 0 + (h * sum_list (map ((!) b) [0..<length b])) *\<^sub>R C"
    by (rule step_increment_const) (use v len in simp)
  hence "step_increment h b ks' [0..<length b] 0 = h *\<^sub>R C"
    using sum by (simp add: map_nth)
  thus ?thesis using st l len by (simp add: rk_body_def Let_def)
qed

lemma rk_loop_const:
  assumes ok: "tableau_ok a b c" and sum: "sum_list b = 1"
  shows "length ks = length b \<Longrightarrow> (\<And>k. k < n \<Longrightarrow> last ts + real k * h < T)
    \<Longrightarrow> T \<le> last ts + real n * h \<Longrightarrow>
    rk_loop a b c T (\<lambda>t y. C) h (length b) (ts, ys, ks)
      = Some (Inr (ts @ map (\<lambda>k. last ts + real k * h) [1..<Suc n],
                   ys @ map (\<lambda>k. last ys + (real k * h) *\<^sub>R C) [1..<Suc n]))"
proof (induction n arbitrary: ts ys ks)
  case 0
  hence "\<not> last ts < T" by simp
  thus ?case by (subst rk_loop.simps) simp
next
  case (Suc n)
  from Suc.prems(2)[of 0] have lt: "last ts < T" by simp
  obtain ks' where body: "rk_body a b c (\<lambda>t y. C) h (length b) (ts, ys, ks)
           = Inr (ts @ [last ts + h], ys @ [last ys + h *\<^sub>R C], ks')"
    and l: "length ks' = length b"
    using rk_body_const[OF ok Suc.prems(1) sum] by blast
  have p1: "last (ts @ [last ts + h]) + real k * h < T" if "k < n" for k
    using Suc.prems(2)[of "Suc k"] that by (simp add: algebra_simps)
  have p2: "T \<le> last (ts @ [last ts + h]) + real n * h"
    using Suc.prems(3) by (simp add: algebra_simps)
  note run = Suc.IH[of ks' "ts @ [last ts + h]" "ys @ [last ys + h *\<^sub>R C]", OF l p1 p2]
  have times: "(ts @ [last ts + h]) @ map (\<lambda>k. last (ts @ [last ts + h]) + real k * h) [1..<Suc n]
      = ts @ map (\<lambda>k. last ts + real k * h) [1..<Suc (Suc n)]"
    unfolding upt_1_Suc_Suc by (simp add: algebra_simps comp_def)
  have states: "(ys @ [last ys + h *\<^sub>R C])
        @ map (\<lambda>k. last (ys @ [last ys + h *\<^sub>R C]) + (real k * h) *\<^sub>R C) [1..<Suc n]
      = ys @ map (\<lambda>k. last ys + (real k * h) *\<^sub>R C) [1..<Suc (Suc n)]"
    unfolding upt_1_Suc_Suc by (simp add: algebra_simps comp_def)
  have "rk_loop a b c T (\<lambda>t y. C) h (length b) (ts, ys, ks)
      = rk_loop a b c T (\<lambda>t y. C) h (length b)
          (ts @ [last ts + h], ys @ [last ys + h *\<^sub>R C], ks')"
    using lt body by (subst rk_loop.simps) simp
  with run times states show ?case by simp
qed

text \<open>
  Claim C4. For a tableau (of the documented shape) whose weights \<open>b\<close> sum to \<open>1\<close>, a
  constant right-hand side \<open>f(t, y) = C\<close>, a positive step size \<open>h\<close> and any horizon
  \<open>T\<close> and initial state \<open>y0\<close>, \<open>explicitRK\<close> returns a trajectory with
  \<open>ys[n] = y0 + n h C\<close> at every index \<open>n\<close> with \<open>n h \<le> T\<close>.
\<close>

theorem explicitRK_constant_field_exact:
  fixes C :: "'a::real_normed_vector"
  assumes h: "0 < h" and ok: "tableau_ok a b c" and sum: "sum_list b = 1"
  shows "\<exists>ts ys. explicitRK a b c y0 T (\<lambda>t y. C) h = Some (Inr (ts, ys))
           \<and> (\<forall>n. real n * h \<le> T \<longrightarrow> n < length ys \<and> ys ! n = y0 + (real n * h) *\<^sub>R C)"
proof -
  define N where "N = nat \<lceil>T / h\<rceil>"
  note N = steps_to_horizon[OF h, where T = T, folded N_def]
  define ts where "ts = [0] @ map (\<lambda>k. last [0] + real k * h) [1..<Suc N]"
  define ys where "ys = map (\<lambda>k. y0 + (real k * h) *\<^sub>R C) [0..<Suc N]"
  have "rk_loop a b c T (\<lambda>t y. C) h (length b) ([0], [y0], replicate (length b) 0)
      = Some (Inr ([0] @ map (\<lambda>k. last [0] + real k * h) [1..<Suc N],
                   [y0] @ map (\<lambda>k. last [y0] + (real k * h) *\<^sub>R C) [1..<Suc N]))"
    by (rule rk_loop_const[OF ok sum]) (simp_all add: N)
  moreover have "[0..<Suc N] = 0 # [1..<Suc N]" by (simp add: upt_conv_Cons del: upt_Suc)
  hence "[y0] @ map (\<lambda>k. last [y0] + (real k * h) *\<^sub>R C) [1..<Suc N] = ys"
    unfolding ys_def by (simp del: upt_Suc)
  ultimately have res: "explicitRK a b c y0 T (\<lambda>t y. C) h = Some (Inr (ts, ys))"
    by (simp add: explicitRK_def Let_def ts_def)
  have "n < length ys \<and> ys ! n = y0 + (real n * h) *\<^sub>R C" if "real n * h \<le> T" for n
  proof -
    from that N(1) have "real n * h \<le> real N * h" by simp
    with h have "n \<le> N" by simp
    thus ?thesis unfolding ys_def by (simp add: nth_append del: upt_Suc)
  qed
  with res show ?thesis by blast
qed

theorem explicitRK_constant_field_exact_witness:
  "\<exists>ts ys. explicitRK [[0, 0], [1, 0]] [1/2, 1/2] [0, 1] (1::real) 1 (\<lambda>t y. 3) (1/2)
              = Some (Inr (ts, ys)) \<and> 2 < length ys \<and> ys ! 2 = 4"
proof -
  have ok: "tableau_ok [[0, 0], [1, 0]] [1/2, 1/2] [0, 1]" by (simp add: tableau_ok_def)
  have sum: "sum_list [1/2, 1/2 :: real] = 1" by simp
  from explicitRK_constant_field_exact[OF _ ok sum, of "1/2" "1::real" 1 3]
  obtain ts ys where
    res: "explicitRK [[0, 0], [1, 0]] [1/2, 1/2] [0, 1] (1::real) 1 (\<lambda>t y. 3) (1/2)
            = Some (Inr (ts, ys))"
    and v: "\<forall>n. real n * (1/2) \<le> 1 \<longrightarrow> n < length ys \<and> ys ! n = 1 + (real n * (1/2)) *\<^sub>R 3"
    by auto
  from v[rule_format, of 2] have "2 < length ys \<and> ys ! 2 = 4" by simp
  with res show ?thesis by blast
qed

end
